theory Spec2Isabelle
  imports Main "HOL-Library.Multiset" "HOL-Library.Stream"
begin

section \<open>PyDuko: the Sudoku board of main.py\<close>

text \<open>
  A shallow embedding of the classes \<open>Board\<close> and \<open>Cell\<close> of \<open>src/main.py\<close>.

  \<^item> Python's unbounded \<open>int\<close> is \<open>int\<close>; \<open>Optional[int]\<close> is \<open>int option\<close>.
  \<^item> A \<open>Cell\<close> is a record of its two mutable attributes \<open>value\<close> and \<open>possibles\<close>.
    Its attributes \<open>x\<close> and \<open>y\<close> are written once, by the constructor, and always equal the
    key under which the cell is stored in \<open>Board.board\<close>; the model uses the key for them.
    The field \<open>value\<close> is spelled \<open>value'\<close>.
  \<^item> \<open>Board.board\<close> is a dict that holds exactly the 81 keys \<open>(x, y)\<close> with \<open>x\<close>, \<open>y\<close> in
    \<open>range(9)\<close>, inserted with \<open>y\<close> outermost, from the constructor on (\<open>clone\<close> and
    \<open>copy_from\<close> rebuild it with the same keys in the same order). It is modelled as a
    function on coordinate pairs, which the model reads and writes at those 81 keys only;
    \<open>iter_cells\<close> lists them in the order in which both \<open>Board.iter_cells\<close> and
    \<open>self.board.values()\<close> visit them.
  \<^item> A Python \<open>str\<close> is a list of code points. The model takes the code points below 256,
    each one a \<open>char\<close> (so \<open>length\<close> counts code points, as \<open>len\<close> does).
  \<^item> Exceptions are values: a method that may raise returns \<open>error + 'a\<close>.
  \<^item> Printing (\<open>print\<close>, \<open>print_board\<close>) is not modelled.
\<close>

datatype error =
    BoardException string   \<comment> \<open>\<open>Board.BoardException(message)\<close>\<close>
  | ValueError string       \<comment> \<open>raised by \<open>int(literal)\<close>; carries the rejected literal\<close>

record cell =
  value' :: "int option"
  possibles :: "int set"

type_synonym board = "nat \<times> nat \<Rightarrow> cell"

subsection \<open>Python built-ins used by the code\<close>

text \<open>\<open>str(n)\<close> for an integer: its decimal numeral, with a minus sign when negative.\<close>

definition digit_char :: "nat \<Rightarrow> char" where
  "digit_char d = char_of (48 + d)"

function str_nat :: "nat \<Rightarrow> string" where
  "str_nat n = (if n < 10 then [digit_char n] else str_nat (n div 10) @ [digit_char (n mod 10)])"
  by pat_completeness auto
termination
  by (relation "measure (\<lambda>n. n)") auto

declare str_nat.simps [simp del]

definition str :: "int \<Rightarrow> string" where
  "str i = (if i < 0 then CHR ''-'' # str_nat (nat (- i)) else str_nat (nat i))"

text \<open>
  \<open>c.isdigit()\<close> for a one-character string: true of the characters whose Unicode
  numeric type is Decimal or Digit. Below code point 256 these are the ten ASCII digits
  and the superscripts two, three and one (U+00B2, U+00B3, U+00B9).
\<close>

definition is_ascii_digit :: "char \<Rightarrow> bool" where
  "is_ascii_digit c = (48 \<le> (of_char c :: nat) \<and> (of_char c :: nat) \<le> 57)"

definition isdigit :: "char \<Rightarrow> bool" where
  "isdigit c = (is_ascii_digit c \<or> (of_char c :: nat) \<in> {178, 179, 185})"

text \<open>
  \<open>int(c)\<close> for a one-character string: the digit's value when the character is a decimal
  digit (below code point 256: an ASCII digit), \<open>ValueError\<close> otherwise.
\<close>

definition int_of_str1 :: "char \<Rightarrow> error + int" where
  "int_of_str1 c = (if is_ascii_digit c then Inr (int (of_char c) - 48) else Inl (ValueError [c]))"

subsection \<open>Cell\<close>

text \<open>\<open>Cell.__init__\<close>: the candidate set is empty for an assigned cell and full otherwise.\<close>

definition Cell :: "int option \<Rightarrow> cell" where
  "Cell v = \<lparr>value' = v, possibles = (if v \<noteq> None then {} else {1..9})\<rparr>"

text \<open>\<open>Cell.clear\<close>.\<close>

definition clear :: "cell \<Rightarrow> cell" where
  "clear c = c\<lparr>value' := None, possibles := {1..9}\<rparr>"

text \<open>\<open>Cell.get_chunk_number\<close>, from the cell's coordinates.\<close>

definition get_chunk_number :: "nat \<Rightarrow> nat \<Rightarrow> nat" where
  "get_chunk_number x y = (y div 3) * 3 + (x div 3)"

subsection \<open>Board: construction, iteration, queries\<close>

definition iter_cells :: "(nat \<times> nat) list" where
  "iter_cells = concat (map (\<lambda>y. map (\<lambda>x. (x, y)) [0..<9]) [0..<9])"

text \<open>\<open>Board()\<close> without a state: 81 fresh cells without a value.\<close>

definition new_board :: board where
  "new_board = (\<lambda>k. Cell None)"

text \<open>
  \<open>Board.set_cell\<close> and \<open>Board.get_cell\<close>. The code calls them with the coordinates of
  a cell of the board; with any other coordinates the dict lookup raises \<open>KeyError\<close>,
  which is outside the model.
\<close>

definition set_cell :: "board \<Rightarrow> nat \<Rightarrow> nat \<Rightarrow> int \<Rightarrow> board" where
  "set_cell b x y v = b((x, y) := (b (x, y))\<lparr>value' := Some v\<rparr>)"

definition get_cell :: "board \<Rightarrow> nat \<Rightarrow> nat \<Rightarrow> int option" where
  "get_cell b x y = value' (b (x, y))"

text \<open>\<open>Board.clone\<close>: every cell is rebuilt by \<open>Cell.clone\<close>, that is by the constructor.\<close>

definition clone :: "board \<Rightarrow> board" where
  "clone b = (\<lambda>k. Cell (value' (b k)))"

definition get_row :: "board \<Rightarrow> nat \<Rightarrow> int list" where
  "get_row b y = List.map_filter (\<lambda>x. value' (b (x, y))) [0..<9]"

definition get_column :: "board \<Rightarrow> nat \<Rightarrow> int list" where
  "get_column b x = List.map_filter (\<lambda>y. value' (b (x, y))) [0..<9]"

definition get_chunk :: "board \<Rightarrow> nat \<Rightarrow> int list" where
  "get_chunk b i =
     (let x_start = (i mod 3) * 3; y_start = (i div 3) * 3
      in concat (map (\<lambda>y. List.map_filter (\<lambda>x. value' (b (x, y))) [x_start..<x_start + 3])
                     [y_start..<y_start + 3]))"

definition get_unsolved_cells :: "board \<Rightarrow> (nat \<times> nat) list" where
  "get_unsolved_cells b = filter (\<lambda>k. value' (b k) = None) iter_cells"

definition get_unsolved_count :: "board \<Rightarrow> nat" where
  "get_unsolved_count b = length (get_unsolved_cells b)"

text \<open>
  \<open>Board.clear_board\<close>: for every cell, \<open>cell.possibles.clear()\<close> (which empties the set)
  and \<open>cell.value = None\<close>.
\<close>

definition clear_board :: "board \<Rightarrow> board" where
  "clear_board b = fold (\<lambda>k b. b(k := (b k)\<lparr>possibles := {}, value' := None\<rparr>)) iter_cells b"

text \<open>
  \<open>Board.is_valid\<close>: the loop over \<open>range(9)\<close> returns \<open>False\<close> at the first row, column or
  chunk whose list of values is longer than its set of values.
\<close>

fun is_valid_loop :: "board \<Rightarrow> nat list \<Rightarrow> bool" where
  "is_valid_loop b [] = True"
| "is_valid_loop b (i # rest) =
     (if card (set (get_row b i)) \<noteq> length (get_row b i) then False
      else if card (set (get_column b i)) \<noteq> length (get_column b i) then False
      else if card (set (get_chunk b i)) \<noteq> length (get_chunk b i) then False
      else is_valid_loop b rest)"

definition is_valid :: "board \<Rightarrow> bool" where
  "is_valid b = is_valid_loop b [0..<9]"

text \<open>\<open>Board.is_solved\<close> raises on a board that is not valid.\<close>

definition is_solved :: "board \<Rightarrow> error + bool" where
  "is_solved b =
     (if \<not> is_valid b then Inl (BoardException ''The board is not valid.'')
      else Inr (list_all (\<lambda>k. value' (b k) \<noteq> None) iter_cells))"

text \<open>\<open>Board.would_be_valid\<close>: the value is set on a clone, which is then checked.\<close>

definition would_be_valid :: "board \<Rightarrow> nat \<Rightarrow> nat \<Rightarrow> int \<Rightarrow> bool" where
  "would_be_valid b x y v = is_valid (set_cell (clone b) x y v)"

subsection \<open>Loading and saving\<close>

text \<open>
  \<open>Board.load_from_string\<close>: the length check, \<open>clear_board\<close>, then the loop over
  \<open>enumerate(board_string)\<close>. A character for which \<open>isdigit\<close> holds is converted by
  \<open>int\<close>, whose \<open>ValueError\<close> leaves the method.
\<close>

fun load_loop :: "board \<Rightarrow> (nat \<times> char) list \<Rightarrow> error + board" where
  "load_loop b [] = Inr b"
| "load_loop b ((i, c) # rest) =
     (let x = i mod 9; y = i div 9
      in if isdigit c then
           (case int_of_str1 c of
              Inl e \<Rightarrow> Inl e
            | Inr v \<Rightarrow> load_loop (b((x, y) := (b (x, y))\<lparr>value' := Some v\<rparr>)) rest)
         else load_loop (b((x, y) := (b (x, y))\<lparr>value' := None\<rparr>)) rest)"

definition load_from_string :: "board \<Rightarrow> string \<Rightarrow> error + board" where
  "load_from_string b board_string =
     (if length board_string \<noteq> 81 then Inl (BoardException ''Invalid board string length'')
      else load_loop (clear_board b) (enumerate 0 board_string))"

text \<open>\<open>Board(state)\<close>: the constructor loads the state into the fresh board.\<close>

definition Board :: "string option \<Rightarrow> error + board" where
  "Board state = (case state of None \<Rightarrow> Inr new_board | Some s \<Rightarrow> load_from_string new_board s)"

text \<open>\<open>Board.save_to_string\<close>: the loop appends one rendering per cell.\<close>

definition save_to_string :: "board \<Rightarrow> string" where
  "save_to_string b =
     fold (\<lambda>k retval. retval @ (case value' (b k) of Some v \<Rightarrow> str v | None \<Rightarrow> ''.''))
          (iter_cells) ''''"

subsection \<open>The propagation solver\<close>

text \<open>
  \<open>Cell.get_possible_values\<close>, for the cell at \<open>(x, y)\<close> of the board: it stores the
  candidate set in the cell (the set it also returns is not used by \<open>Board.solve\<close>).
\<close>

definition get_possible_values :: "board \<Rightarrow> nat \<Rightarrow> nat \<Rightarrow> board" where
  "get_possible_values b x y =
     (if value' (b (x, y)) \<noteq> None then b((x, y) := (b (x, y))\<lparr>possibles := {}\<rparr>)
      else
        let row = get_row b y;
            col = get_column b x;
            chunk = get_chunk b (get_chunk_number x y);
            not_possibles = set row \<union> set col \<union> set chunk
        in b((x, y) := (b (x, y))\<lparr>possibles := {1..9} - not_possibles\<rparr>))"

text \<open>
  \<open>cell.value = cell.possibles.pop()\<close>, which the code runs on a set of one element only:
  that element leaves the set and becomes the value.
\<close>

definition pop_value :: "cell \<Rightarrow> cell" where
  "pop_value c = (let v = the_elem (possibles c) in c\<lparr>possibles := possibles c - {v}, value' := Some v\<rparr>)"

text \<open>
  The \<open>for\<close> loop of \<open>Board.solve\<close>, one pass over the cells. The validity check is
  inside the loop and runs after every cell.
\<close>

fun solve_pass :: "board \<Rightarrow> (nat \<times> nat) list \<Rightarrow> error + board" where
  "solve_pass b [] = Inr b"
| "solve_pass b ((x, y) # rest) =
     (if value' (b (x, y)) = None then
        (let b1 = get_possible_values b x y in
         if card (possibles (b1 (x, y))) = 0 then
           Inl (BoardException (''Cell('' @ str (int x) @ '', '' @ str (int y) @ '') has no possible values!''))
         else
           let b2 = (if card (possibles (b1 (x, y))) = 1 then b1((x, y) := pop_value (b1 (x, y))) else b1)
           in if \<not> is_valid b2 then Inl (BoardException ''Board is not valid!'')
              else solve_pass b2 rest)
      else if \<not> is_valid b then Inl (BoardException ''Board is not valid!'')
      else solve_pass b rest)"

text \<open>
  \<open>Board.solve\<close>: the \<open>while True\<close> loop, which leaves only by an exception or when no
  unsolved cell is left. \<open>None\<close> is the run that never returns. The counter
  \<open>iterations\<close> is only printed and is left out.
\<close>

partial_function (option) solve :: "board \<Rightarrow> (error + board) option" where
  "solve b =
     (case solve_pass b iter_cells of
        Inl e \<Rightarrow> Some (Inl e)
      | Inr b' \<Rightarrow> if get_unsolved_count b' = 0 then Some (Inr b') else solve b')"

subsection \<open>The backtracking solver\<close>

text \<open>
  \<open>random.shuffle\<close> is the standard library's loop
  \<^verbatim>\<open>for i in reversed(range(1, len(x))): j = randbelow(i + 1); x[i], x[j] = x[j], x[i]\<close>.
  The generator is a stream of naturals: \<open>randbelow(n)\<close> takes the next one modulo \<open>n\<close>,
  so the streams range over all the runs.
\<close>

type_synonym rng = "nat stream"

definition randbelow :: "nat \<Rightarrow> rng \<Rightarrow> nat \<times> rng" where
  "randbelow n r = (shd r mod n, stl r)"

fun shuffle_loop :: "nat list \<Rightarrow> int list \<Rightarrow> rng \<Rightarrow> int list \<times> rng" where
  "shuffle_loop [] x r = (x, r)"
| "shuffle_loop (i # rest) x r =
     (let (j, r') = randbelow (i + 1) r
      in shuffle_loop rest (x[i := x ! j, j := x ! i]) r')"

definition shuffle :: "int list \<Rightarrow> rng \<Rightarrow> int list \<times> rng" where
  "shuffle x r = shuffle_loop (rev [1..<length x]) x r"

text \<open>
  \<open>Board.solve_sudoku\<close>. The outer \<open>for\<close> loop returns at the first cell without a value
  (\<open>find\<close>), or \<open>True\<close> when there is none; \<open>try_nums\<close> is the inner loop over the shuffled
  numbers, on the board as the failed recursive call left it. The first argument bounds
  the depth of the recursion; \<open>None\<close> means that the bound was reached.
\<close>

fun solve_sudoku_fuel :: "nat \<Rightarrow> board \<Rightarrow> rng \<Rightarrow> (bool \<times> board \<times> rng) option"
  and try_nums :: "nat \<Rightarrow> nat \<Rightarrow> nat \<Rightarrow> int list \<Rightarrow> board \<Rightarrow> rng \<Rightarrow> (bool \<times> board \<times> rng) option"
where
  "solve_sudoku_fuel 0 b r = None"
| "solve_sudoku_fuel (Suc n) b r =
     (case find (\<lambda>k. value' (b k) = None) iter_cells of
        None \<Rightarrow> Some (True, b, r)
      | Some (x, y) \<Rightarrow>
          (let (nums, r') = shuffle [1, 2, 3, 4, 5, 6, 7, 8, 9] r
           in try_nums n x y nums b r'))"
| "try_nums n x y [] b r = Some (False, b, r)"
| "try_nums n x y (num # nums) b r =
     (if would_be_valid b x y num then
        (case solve_sudoku_fuel n (b((x, y) := (b (x, y))\<lparr>value' := Some num\<rparr>)) r of
           None \<Rightarrow> None
         | Some (True, b', r') \<Rightarrow> Some (True, b', r')
         | Some (False, b', r') \<Rightarrow>
             try_nums n x y nums (b'((x, y) := (b' (x, y))\<lparr>value' := None\<rparr>)) r')
      else try_nums n x y nums b r)"

text \<open>
  A call on a board with \<open>u\<close> cells without a value nests at most \<open>u + 1\<close> calls, so this
  bound is never reached (lemma \<open>solve_sudoku_fuel_total\<close>).
\<close>

definition solve_sudoku :: "board \<Rightarrow> rng \<Rightarrow> (bool \<times> board \<times> rng) option" where
  "solve_sudoku b r = solve_sudoku_fuel (Suc (get_unsolved_count b)) b r"

subsection \<open>Auxiliary notions for the statements\<close>

text \<open>
  What \<open>load_from_string\<close> stores for a character it accepts, and the condition under
  which it accepts a string: every character that passes \<open>isdigit\<close> is one that \<open>int\<close>
  converts.
\<close>

definition char_value :: "char \<Rightarrow> int option" where
  "char_value c = (if is_ascii_digit c then Some (int (of_char c) - 48) else None)"

definition loadable :: "string \<Rightarrow> bool" where
  "loadable s = list_all (\<lambda>c. isdigit c \<longrightarrow> is_ascii_digit c) s"

text \<open>What \<open>save_to_string\<close> appends for one cell, and the character a loaded cell renders as.\<close>

definition render :: "int option \<Rightarrow> string" where
  "render v = (case v of Some v \<Rightarrow> str v | None \<Rightarrow> ''.'')"

definition normalise :: "char \<Rightarrow> char" where
  "normalise c = (if is_ascii_digit c then c else CHR ''.'')"

text \<open>
  The statement of the validity claim, in its own words: two distinct cells of the grid
  that share a row, a column or a 3x3 block hold the same assigned value.
\<close>

definition same_unit :: "nat \<times> nat \<Rightarrow> nat \<times> nat \<Rightarrow> bool" where
  "same_unit p q =
     (snd p = snd q \<or> fst p = fst q \<or> (fst p div 3 = fst q div 3 \<and> snd p div 3 = snd q div 3))"

definition repeated_value :: "board \<Rightarrow> bool" where
  "repeated_value b =
     (\<exists>p\<in>set iter_cells. \<exists>q\<in>set iter_cells. p \<noteq> q \<and> same_unit p q \<and>
        (\<exists>v. value' (b p) = Some v \<and> value' (b q) = Some v))"

text \<open>
  The candidates of a cell, as \<open>get_possible_values\<close> computes them, and a grid on which
  deduction is stuck: a cell without a value is left, and each such cell has two or more
  candidates.
\<close>

definition candidates :: "board \<Rightarrow> nat \<Rightarrow> nat \<Rightarrow> int set" where
  "candidates b x y =
     {1..9} - (set (get_row b y) \<union> set (get_column b x) \<union> set (get_chunk b (get_chunk_number x y)))"

definition stuck :: "board \<Rightarrow> bool" where
  "stuck b =
     (get_unsolved_count b \<noteq> 0 \<and>
      (\<forall>(x, y)\<in>set (get_unsolved_cells b). 2 \<le> card (candidates b x y)))"

text \<open>A complete grid, used to show that the search on the empty grid has a solution to find.\<close>

definition example_solution :: board where
  "example_solution = (\<lambda>(x, y). Cell (Some (int ((3 * (y mod 3) + y div 3 + x) mod 9) + 1)))"

definition extends :: "board \<Rightarrow> board \<Rightarrow> bool" where
  "extends g b = (\<forall>k\<in>set iter_cells. value' (b k) = None \<or> value' (b k) = value' (g k))"

definition same_values :: "board \<Rightarrow> board \<Rightarrow> bool" where
  "same_values b b' = (\<forall>k. value' (b k) = value' (b' k))"

text \<open>The cells of a row, of a column and of a chunk, in the order in which the code reads them.\<close>

definition row_cells :: "nat \<Rightarrow> (nat \<times> nat) list" where
  "row_cells y = map (\<lambda>x. (x, y)) [0..<9]"

definition column_cells :: "nat \<Rightarrow> (nat \<times> nat) list" where
  "column_cells x = map (\<lambda>y. (x, y)) [0..<9]"

definition chunk_cells :: "nat \<Rightarrow> (nat \<times> nat) list" where
  "chunk_cells i =
     concat (map (\<lambda>y. map (\<lambda>x. (x, y)) [(i mod 3) * 3..<(i mod 3) * 3 + 3])
                 [(i div 3) * 3..<(i div 3) * 3 + 3])"

definition repeated_in :: "board \<Rightarrow> (nat \<times> nat) list \<Rightarrow> bool" where
  "repeated_in b ks =
     (\<exists>p\<in>set ks. \<exists>q\<in>set ks. p \<noteq> q \<and> (\<exists>v. value' (b p) = Some v \<and> value' (b q) = Some v))"

text \<open>Grids whose assigned values lie in 1..9, and complete valid grids.\<close>

definition values_in_range :: "board \<Rightarrow> bool" where
  "values_in_range b = (\<forall>k\<in>set iter_cells. \<forall>v. value' (b k) = Some v \<longrightarrow> v \<in> {1..9})"

definition complete_grid :: "board \<Rightarrow> bool" where
  "complete_grid g = (is_valid g \<and> (\<forall>k\<in>set iter_cells. \<exists>v\<in>{1..9}. value' (g k) = Some v))"


text \<open>
  A valid grid without completion: row 0 holds 1..7 in its first seven cells and the
  last column holds 8 and 9 further down, so that no value is left for the cell (8, 0),
  while the first unassigned cell, (7, 0), accepts 8 and 9. It is the board of
  \<open>Board()\<close> after nine calls of \<open>set_cell\<close>.
\<close>

definition dead_end_board :: board where
  "dead_end_board =
     set_cell (set_cell (set_cell (set_cell (set_cell (set_cell (set_cell (set_cell (set_cell
       new_board 0 0 1) 1 0 2) 2 0 3) 3 0 4) 4 0 5) 5 0 6) 6 0 7) 8 5 8) 8 6 9"

section \<open>Loading, saving and clearing\<close>

lemma range9: "[0..<9] = [0, 1, 2, 3, 4, 5, 6, 7, 8]"
  by (simp add: upt_rec)

lemma in_iter_cells: "(x, y) \<in> set iter_cells \<longleftrightarrow> x < 9 \<and> y < 9"
  by (auto simp: iter_cells_def image_iff)

lemma fold_clear_apply:
  "fold (\<lambda>k b. b(k := (b k)\<lparr>possibles := {}, value' := None\<rparr>)) ks b k =
     (if k \<in> set ks then (b k)\<lparr>possibles := {}, value' := None\<rparr> else b k)"
  by (induction ks arbitrary: b) auto

lemma clear_board_apply:
  "clear_board b k = (if k \<in> set iter_cells then (b k)\<lparr>possibles := {}, value' := None\<rparr> else b k)"
  unfolding clear_board_def by (rule fold_clear_apply)

lemma iter_cells_index: "iter_cells = map (\<lambda>i. (i mod 9, i div 9)) [0..<81]"
  by (simp add: iter_cells_def upt_rec)

lemma load_loop_ok:
  "loadable s \<Longrightarrow>
   load_loop b (enumerate n s) =
     Inr (\<lambda>(x, y). if x < 9 \<and> n \<le> y * 9 + x \<and> y * 9 + x < n + length s
                    then (b (x, y))\<lparr>value' := char_value (s ! (y * 9 + x - n))\<rparr>
                    else b (x, y))"
proof (induction s arbitrary: b n)
  case Nil
  then show ?case by (auto simp: fun_eq_iff)
next
  case (Cons c s)
  from Cons.prems have ok: "loadable s" and c: "isdigit c \<longrightarrow> is_ascii_digit c"
    by (simp_all add: loadable_def)
  let ?b1 = "b((n mod 9, n div 9) := (b (n mod 9, n div 9))\<lparr>value' := char_value c\<rparr>)"
  have step: "load_loop b (enumerate n (c # s)) = load_loop ?b1 (enumerate (Suc n) s)"
    using c by (auto simp: Let_def int_of_str1_def char_value_def isdigit_def)
  have eq: "(\<lambda>(x, y). if x < 9 \<and> Suc n \<le> y * 9 + x \<and> y * 9 + x < Suc n + length s
                    then (?b1 (x, y))\<lparr>value' := char_value (s ! (y * 9 + x - Suc n))\<rparr>
                    else ?b1 (x, y))
      = (\<lambda>(x, y). if x < 9 \<and> n \<le> y * 9 + x \<and> y * 9 + x < n + length (c # s)
                    then (b (x, y))\<lparr>value' := char_value ((c # s) ! (y * 9 + x - n))\<rparr>
                    else b (x, y))"
  proof (rule ext, clarify)
    fix x y :: nat
    show "(if x < 9 \<and> Suc n \<le> y * 9 + x \<and> y * 9 + x < Suc n + length s
                    then (?b1 (x, y))\<lparr>value' := char_value (s ! (y * 9 + x - Suc n))\<rparr>
                    else ?b1 (x, y))
      = (if x < 9 \<and> n \<le> y * 9 + x \<and> y * 9 + x < n + length (c # s)
                    then (b (x, y))\<lparr>value' := char_value ((c # s) ! (y * 9 + x - n))\<rparr>
                    else b (x, y))"
    proof (cases "x < 9 \<and> n = y * 9 + x")
      case True
      then show ?thesis by simp
    next
      case False
      then have ne: "(x, y) \<noteq> (n mod 9, n div 9)" by auto
      show ?thesis
      proof (cases "x < 9 \<and> Suc n \<le> y * 9 + x \<and> y * 9 + x < Suc n + length s")
        case True
        then have "y * 9 + x - n = Suc (y * 9 + x - Suc n)" by arith
        with True ne show ?thesis by simp
      next
        case F2: False
        with False ne show ?thesis by auto
      qed
    qed
  qed
  show ?case
    unfolding step Cons.IH[OF ok, of ?b1 "Suc n"] by (rule arg_cong[of _ _ Inr]) (rule eq)
qed


lemma fold_append_concat: "fold (\<lambda>k r. r @ f k) ks r0 = r0 @ concat (map f ks)"
  by (induction ks arbitrary: r0) auto

lemma save_to_string_concat:
  "save_to_string b = concat (map (\<lambda>k. render (value' (b k))) iter_cells)"
  by (simp add: save_to_string_def render_def fold_append_concat)

lemma str_digit: "0 \<le> d \<Longrightarrow> d < 10 \<Longrightarrow> str d = [digit_char (nat d)]"
  by (simp add: str_def str_nat.simps)

lemma render_char_value: "render (char_value c) = [normalise c]"
proof (cases "is_ascii_digit c")
  case True
  then have "nat (int (of_char c) - 48) = of_char c - 48" "(48::nat) \<le> of_char c"
    by (auto simp: is_ascii_digit_def)
  with True show ?thesis
    by (simp add: render_def char_value_def normalise_def str_digit is_ascii_digit_def digit_char_def)
next
  case False
  then show ?thesis by (simp add: render_def char_value_def normalise_def)
qed

lemma load_from_string_ok:
  assumes "length s = 81" "loadable s"
  shows "load_from_string b s =
     Inr (\<lambda>(x, y). if x < 9 \<and> y < 9
                    then \<lparr>value' = char_value (s ! (y * 9 + x)), possibles = {}\<rparr>
                    else b (x, y))"
proof -
  have "(\<lambda>(x, y). if x < 9 \<and> 0 \<le> y * 9 + x \<and> y * 9 + x < 0 + length s
                    then (clear_board b (x, y))\<lparr>value' := char_value (s ! (y * 9 + x - 0))\<rparr>
                    else clear_board b (x, y))
      = (\<lambda>(x, y). if x < 9 \<and> y < 9
                    then \<lparr>value' = char_value (s ! (y * 9 + x)), possibles = {}\<rparr>
                    else b (x, y))"
    using assms(1) by (auto simp: fun_eq_iff clear_board_apply in_iter_cells)
  with load_loop_ok[OF assms(2), of "clear_board b" 0] assms(1) show ?thesis
    by (simp add: load_from_string_def)
qed

lemma concat_map_nth: "concat (map (\<lambda>i. [f (s ! i)]) [0..<length s]) = map f s"
proof -
  have "concat (map (\<lambda>i. [f (s ! i)]) js) = map f (map (nth s) js)" for js
    by (induction js) auto
  from this[of "[0..<length s]"] show ?thesis by (simp only: map_nth)
qed

lemma save_load:
  assumes "length s = 81" "loadable s" "load_from_string b s = Inr b'"
  shows "save_to_string b' = map normalise s"
proof -
  have b': "b' = (\<lambda>(x, y). if x < 9 \<and> y < 9
                    then \<lparr>value' = char_value (s ! (y * 9 + x)), possibles = {}\<rparr>
                    else b (x, y))"
    using load_from_string_ok[OF assms(1,2), of b] assms(3) by simp
  have "map (\<lambda>k. render (value' (b' k))) iter_cells = map (\<lambda>i. [normalise (s ! i)]) [0..<81]"
    unfolding iter_cells_index map_map
    by (rule map_cong) (auto simp: b' render_char_value)
  then show ?thesis
    using concat_map_nth[of normalise s] assms(1) by (simp add: save_to_string_concat)
qed




lemma not_isdigit_dot: "\<not> isdigit (CHR ''.'')"
  by (simp add: isdigit_def is_ascii_digit_def)

lemma loadable_ascii:
  assumes "\<forall>c\<in>set s. is_ascii_digit c \<or> c = CHR ''.''"
  shows "loadable s"
  unfolding loadable_def list_all_iff
proof (intro ballI impI)
  fix c assume "c \<in> set s" and d: "isdigit c"
  with assms have "is_ascii_digit c \<or> c = CHR ''.''" by blast
  with d not_isdigit_dot show "is_ascii_digit c" by blast
qed

lemma load_from_string_length:
  "length s \<noteq> 81 \<Longrightarrow> load_from_string b s = Inl (BoardException ''Invalid board string length'')"
  by (simp add: load_from_string_def)

subsection \<open>Claims about loading, saving and clearing\<close>

text \<open>
  Claim C3. For every string \<open>s\<close> of exactly 81 characters, each an ASCII digit or
  \<open>'.'\<close>, loading \<open>s\<close> into a board (whatever the board held before) succeeds, and
  saving the loaded board gives back \<open>s\<close>.
\<close>

theorem save_load_roundtrip:
  assumes "length s = 81" and "\<forall>c\<in>set s. is_ascii_digit c \<or> c = CHR ''.''"
  shows "\<exists>b'. load_from_string b s = Inr b' \<and> save_to_string b' = s"
proof -
  have l: "loadable s" using assms(2) by (rule loadable_ascii)
  obtain b' where b': "load_from_string b s = Inr b'"
    using load_from_string_ok[OF assms(1) l] by blast
  have "map normalise s = s"
    using assms(2) by (intro map_idI) (auto simp: normalise_def)
  with save_load[OF assms(1) l b'] b' show ?thesis by simp
qed

theorem save_load_roundtrip_witness:
  "length ''.1..7..5.8..1..7434...3.2..7...13..6..16.....368..4.79.873.596.93..2.8....589.4.7'' = 81 \<and>
   (\<exists>b'. load_from_string new_board
     ''.1..7..5.8..1..7434...3.2..7...13..6..16.....368..4.79.873.596.93..2.8....589.4.7'' = Inr b' \<and>
     save_to_string b' =
     ''.1..7..5.8..1..7434...3.2..7...13..6..16.....368..4.79.873.596.93..2.8....589.4.7'')"
  using save_load_roundtrip[of
      "''.1..7..5.8..1..7434...3.2..7...13..6..16.....368..4.79.873.596.93..2.8....589.4.7''"
      new_board]
  by (simp add: is_ascii_digit_def)

text \<open>
  Claim C6. A string whose length is not 81 is rejected with the \<open>BoardException\<close>
  for the length (lemma \<open>load_from_string_length\<close>), and a string of length 81 is loaded
  whenever \<open>int\<close> converts each of its \<open>isdigit\<close> characters (lemma
  \<open>load_from_string_ok\<close>). But not every string of length 81 is loaded: the
  81-character string that starts with the superscript two (U+00B2) and goes on with 80
  dots passes the length check, its first character passes \<open>isdigit\<close>, and \<open>int\<close>
  raises \<open>ValueError\<close> on it, both through \<open>load_from_string\<close> and through the
  constructor.
\<close>

theorem load_superscript_two_raises:
  "length (CHR 0xB2 # replicate 80 (CHR ''.'')) = 81 \<and>
   load_from_string new_board (CHR 0xB2 # replicate 80 (CHR ''.'')) = Inl (ValueError [CHR 0xB2]) \<and>
   Board (Some (CHR 0xB2 # replicate 80 (CHR ''.''))) = Inl (ValueError [CHR 0xB2])"
  by (simp add: Board_def load_from_string_def enumerate_eq_zip isdigit_def is_ascii_digit_def
      int_of_str1_def upt_rec[of 0])

text \<open>
  Claim C7. After \<open>clear_board\<close> every cell is unassigned, but its candidate set is
  empty, not the full set 1..9 that \<open>Cell.clear\<close> installs: on a fresh board, the cell
  at (0, 0) has no candidate left after \<open>clear_board\<close>.
\<close>

theorem clear_board_empties_possibles:
  "value' (clear_board new_board (0, 0)) = None \<and>
   possibles (clear_board new_board (0, 0)) = {} \<and>
   possibles (clear_board new_board (0, 0)) \<noteq> {1..9} \<and>
   possibles (clear (new_board (0, 0))) = {1..9}"
  by (simp add: clear_board_apply in_iter_cells clear_def)

text \<open>
  Claim C8, as stated: the string made of \<open>11\<close> and 87 dots has 89 characters, so the
  constructor rejects it for its length instead of parsing it.
\<close>

theorem two_ones_87_dots_rejected:
  "Board (Some (''11'' @ replicate 87 (CHR ''.''))) =
     Inl (BoardException ''Invalid board string length'')"
  by (simp add: Board_def load_from_string_def)

text \<open>
  Claim C8, amended: the string made of \<open>11\<close> and 79 dots (81 characters) is parsed,
  and the board it gives is not valid, its first row holding the value 1 twice.
\<close>

theorem two_ones_79_dots_invalid:
  "\<exists>b. Board (Some (''11'' @ replicate 79 (CHR ''.''))) = Inr b \<and> is_valid b = False"
proof -
  let ?s = "''11'' @ replicate 79 (CHR ''.'')"
  have len: "length ?s = 81" by simp
  have l: "loadable ?s" by (rule loadable_ascii) (auto simp: is_ascii_digit_def)
  have "get_row (\<lambda>(x, y). if x < 9 \<and> y < 9
                    then \<lparr>value' = char_value (?s ! (y * 9 + x)), possibles = {}\<rparr>
                    else new_board (x, y)) 0 = [1, 1]"
    by (simp add: get_row_def range9 List.map_filter_simps char_value_def is_ascii_digit_def
        nth_append)
  then show ?thesis
    unfolding Board_def option.case load_from_string_ok[OF len l]
    by (simp add: is_valid_def upt_rec[of 0 9])
qed




section \<open>Validity\<close>

lemma card_set_length: "card (set xs) \<noteq> length xs \<longleftrightarrow> \<not> distinct xs"
  using card_distinct distinct_card by blast

lemma is_valid_loop_iff:
  "is_valid_loop b js \<longleftrightarrow>
     (\<forall>i\<in>set js. distinct (get_row b i) \<and> distinct (get_column b i) \<and> distinct (get_chunk b i))"
  by (induction js) (simp_all add: card_set_length)

lemma map_filter_map: "List.map_filter f (map g xs) = List.map_filter (\<lambda>x. f (g x)) xs"
  by (induction xs) (auto simp: List.map_filter_simps split: option.splits)

lemma map_filter_concat: "List.map_filter f (concat xss) = concat (map (List.map_filter f) xss)"
  by (induction xss) (simp_all add: List.map_filter_def)

lemma get_row_cells: "get_row b y = List.map_filter (\<lambda>k. value' (b k)) (row_cells y)"
  by (simp add: get_row_def row_cells_def map_filter_map)

lemma get_column_cells: "get_column b x = List.map_filter (\<lambda>k. value' (b k)) (column_cells x)"
  by (simp add: get_column_def column_cells_def map_filter_map)

lemma get_chunk_cells: "get_chunk b i = List.map_filter (\<lambda>k. value' (b k)) (chunk_cells i)"
  by (simp add: get_chunk_def chunk_cells_def map_filter_map map_filter_concat Let_def comp_def)

lemma set_map_filter: "set (List.map_filter f ks) = {v. \<exists>k\<in>set ks. f k = Some v}"
  by (induction ks) (auto simp: List.map_filter_simps split: option.splits)

lemma repeated_in_Cons:
  assumes "k \<notin> set ks"
  shows "repeated_in b (k # ks) \<longleftrightarrow>
     repeated_in b ks \<or> (\<exists>q\<in>set ks. \<exists>v. value' (b k) = Some v \<and> value' (b q) = Some v)"
proof
  assume "repeated_in b (k # ks)"
  then obtain p q v where pq: "p \<in> set (k # ks)" "q \<in> set (k # ks)" "p \<noteq> q"
      "value' (b p) = Some v" "value' (b q) = Some v"
    unfolding repeated_in_def by blast
  show "repeated_in b ks \<or> (\<exists>q\<in>set ks. \<exists>v. value' (b k) = Some v \<and> value' (b q) = Some v)"
  proof (cases "p = k")
    case True
    with pq have "q \<in> set ks" by auto
    with pq True show ?thesis by blast
  next
    case False
    show ?thesis
    proof (cases "q = k")
      case True
      with pq False have "p \<in> set ks" by auto
      with pq True show ?thesis by blast
    next
      case qk: False
      with False pq have "p \<in> set ks" "q \<in> set ks" by auto
      with pq have "repeated_in b ks" unfolding repeated_in_def by blast
      then show ?thesis ..
    qed
  qed
next
  assume "repeated_in b ks \<or> (\<exists>q\<in>set ks. \<exists>v. value' (b k) = Some v \<and> value' (b q) = Some v)"
  then show "repeated_in b (k # ks)"
  proof
    assume "repeated_in b ks"
    then show ?thesis unfolding repeated_in_def by (meson list.set_intros(2))
  next
    assume "\<exists>q\<in>set ks. \<exists>v. value' (b k) = Some v \<and> value' (b q) = Some v"
    then obtain q v where q: "q \<in> set ks" "value' (b k) = Some v" "value' (b q) = Some v" by blast
    with assms have "k \<noteq> q" by blast
    with q show ?thesis unfolding repeated_in_def by (meson list.set_intros)
  qed
qed

lemma distinct_map_filter:
  "distinct ks \<Longrightarrow>
   distinct (List.map_filter (\<lambda>k. value' (b k)) ks) \<longleftrightarrow> \<not> repeated_in b ks"
proof (induction ks)
  case Nil
  then show ?case by (simp add: List.map_filter_simps repeated_in_def)
next
  case (Cons k ks)
  then have IH: "distinct (List.map_filter (\<lambda>k. value' (b k)) ks) \<longleftrightarrow> \<not> repeated_in b ks"
    and k: "k \<notin> set ks" by simp_all
  show ?case
  proof (cases "value' (b k)")
    case None
    with IH show ?thesis by (simp add: List.map_filter_simps repeated_in_Cons[OF k])
  next
    case (Some v)
    with IH show ?thesis
      by (simp add: List.map_filter_simps set_map_filter repeated_in_Cons[OF k]) blast
  qed
qed

lemma distinct_row_cells: "distinct (row_cells y)"
  by (simp add: row_cells_def distinct_map inj_on_def)

lemma distinct_column_cells: "distinct (column_cells x)"
  by (simp add: column_cells_def distinct_map inj_on_def)

lemma distinct_chunk_cells: "distinct (chunk_cells i)"
  unfolding chunk_cells_def
  by (rule distinct_concat) (auto simp: distinct_map inj_on_def)

lemma div3_range: "(m * 3 \<le> a \<and> a < m * 3 + 3) \<longleftrightarrow> a div 3 = m" for a m :: nat
  by auto

lemma in_chunk_cells:
  "(x, y) \<in> set (chunk_cells i) \<longleftrightarrow> x div 3 = i mod 3 \<and> y div 3 = i div 3"
proof -
  have "(x, y) \<in> set (chunk_cells i) \<longleftrightarrow>
      ((i mod 3) * 3 \<le> x \<and> x < (i mod 3) * 3 + 3) \<and> ((i div 3) * 3 \<le> y \<and> y < (i div 3) * 3 + 3)"
    by (auto simp: chunk_cells_def image_iff)
  then show ?thesis by (simp only: div3_range)
qed

lemma chunk_cells_range:
  assumes "i < 9" and "(x, y) \<in> set (chunk_cells i)"
  shows "x < 9 \<and> y < 9"
proof -
  from assms(2) have "x div 3 = i mod 3" "y div 3 = i div 3" by (simp_all add: in_chunk_cells)
  moreover have "i mod 3 < 3" "i div 3 < 3" using assms(1) by simp_all
  ultimately have "x div 3 < 3" "y div 3 < 3" by simp_all
  then show ?thesis by (simp add: div_less_iff_less_mult)
qed

lemma in_row_cells: "(x, y') \<in> set (row_cells y) \<longleftrightarrow> x < 9 \<and> y' = y"
  by (auto simp: row_cells_def)

lemma in_column_cells: "(x', y) \<in> set (column_cells x) \<longleftrightarrow> y < 9 \<and> x' = x"
  by (auto simp: column_cells_def)

lemma is_valid_units:
  "is_valid b \<longleftrightarrow>
     (\<forall>i<9. \<not> repeated_in b (row_cells i) \<and> \<not> repeated_in b (column_cells i) \<and>
             \<not> repeated_in b (chunk_cells i))"
  by (simp add: is_valid_def is_valid_loop_iff get_row_cells get_column_cells get_chunk_cells
      distinct_map_filter distinct_row_cells distinct_column_cells distinct_chunk_cells Ball_def)


lemma repeated_value_iff:
  "repeated_value b \<longleftrightarrow>
     (\<exists>i<9. repeated_in b (row_cells i) \<or> repeated_in b (column_cells i) \<or>
             repeated_in b (chunk_cells i))"
proof
  assume "repeated_value b"
  then obtain p q v where pq: "p \<in> set iter_cells" "q \<in> set iter_cells" "p \<noteq> q"
      "same_unit p q" "value' (b p) = Some v" "value' (b q) = Some v"
    unfolding repeated_value_def by blast
  obtain x y x' y' where p: "p = (x, y)" and q: "q = (x', y')"
    by (cases p, cases q) blast
  from pq have xy: "x < 9" "y < 9" "x' < 9" "y' < 9" "(x, y) \<noteq> (x', y')"
      and u: "same_unit (x, y) (x', y')"
      and v: "value' (b (x, y)) = Some v" "value' (b (x', y')) = Some v"
    unfolding p q by (simp_all add: in_iter_cells)
  from u consider "y = y'" | "x = x'" | "x div 3 = x' div 3" "y div 3 = y' div 3"
    unfolding same_unit_def by auto
  then show "\<exists>i<9. repeated_in b (row_cells i) \<or> repeated_in b (column_cells i) \<or>
             repeated_in b (chunk_cells i)"
  proof cases
    case 1
    have "(x, y) \<in> set (row_cells y)" "(x', y') \<in> set (row_cells y)"
      using xy 1 by (simp_all add: in_row_cells)
    with xy(5) v have "repeated_in b (row_cells y)" unfolding repeated_in_def by blast
    with xy(2) show ?thesis by blast
  next
    case 2
    have "(x, y) \<in> set (column_cells x)" "(x', y') \<in> set (column_cells x)"
      using xy 2 by (simp_all add: in_column_cells)
    with xy(5) v have "repeated_in b (column_cells x)" unfolding repeated_in_def by blast
    with xy(1) show ?thesis by blast
  next
    case 3
    let ?i = "(y div 3) * 3 + x div 3"
    have "x div 3 < 3" "y div 3 < 3" using xy(1,2) by simp_all
    then have i: "?i < 9" "?i mod 3 = x div 3" "?i div 3 = y div 3" by simp_all
    have "(x, y) \<in> set (chunk_cells ?i)" "(x', y') \<in> set (chunk_cells ?i)"
      unfolding in_chunk_cells i using 3 by simp_all
    with xy(5) v have "repeated_in b (chunk_cells ?i)" unfolding repeated_in_def by blast
    with i(1) show ?thesis by blast
  qed
next
  assume "\<exists>i<9. repeated_in b (row_cells i) \<or> repeated_in b (column_cells i) \<or>
             repeated_in b (chunk_cells i)"
  then obtain i where i: "i < 9"
    and r: "repeated_in b (row_cells i) \<or> repeated_in b (column_cells i) \<or>
             repeated_in b (chunk_cells i)" by blast
  have sub: "set (row_cells i) \<subseteq> set iter_cells" "set (column_cells i) \<subseteq> set iter_cells"
      "set (chunk_cells i) \<subseteq> set iter_cells"
    using i chunk_cells_range[OF i] by (auto simp: in_row_cells in_column_cells in_iter_cells)
  have unit: "\<And>p q. p \<in> set (row_cells i) \<Longrightarrow> q \<in> set (row_cells i) \<Longrightarrow> same_unit p q"
      "\<And>p q. p \<in> set (column_cells i) \<Longrightarrow> q \<in> set (column_cells i) \<Longrightarrow> same_unit p q"
      "\<And>p q. p \<in> set (chunk_cells i) \<Longrightarrow> q \<in> set (chunk_cells i) \<Longrightarrow> same_unit p q"
    by (auto simp: in_row_cells in_column_cells in_chunk_cells same_unit_def)
  from r show "repeated_value b"
    unfolding repeated_in_def repeated_value_def using sub unit by (elim disjE) blast+
qed

lemma is_valid_iff: "is_valid b \<longleftrightarrow> \<not> repeated_value b"
  unfolding is_valid_units repeated_value_iff by blast

lemma value_new_board: "value' (new_board k) = None"
  by (simp add: new_board_def Cell_def)

lemma not_repeated_new_board: "\<not> repeated_value new_board"
  by (simp add: repeated_value_def value_new_board)

lemma repeated_two_ones: "repeated_value (set_cell (set_cell new_board 0 0 1) 1 0 1)"
proof -
  have "(0, 0) \<in> set iter_cells" "(1, 0) \<in> set iter_cells" "(0::nat, 0::nat) \<noteq> (1, 0)"
      "same_unit (0, 0) (1, 0)"
    by (simp_all add: in_iter_cells same_unit_def)
  moreover have "value' (set_cell (set_cell new_board 0 0 1) 1 0 1 (0, 0)) = Some 1"
      "value' (set_cell (set_cell new_board 0 0 1) 1 0 1 (1, 0)) = Some 1"
    by (simp_all add: set_cell_def)
  ultimately show ?thesis unfolding repeated_value_def by blast
qed

text \<open>
  Claim C4. \<open>is_valid\<close> is false exactly when two distinct cells of one row, one column
  or one 3x3 block hold the same assigned value; and a grid without assigned values is
  valid, so cells without a value never make a grid invalid.
\<close>

theorem is_valid_false_iff_repeated:
  "(is_valid b = False \<longleftrightarrow> repeated_value b) \<and>
   ((\<forall>k\<in>set iter_cells. value' (b k) = None) \<longrightarrow> is_valid b)"
proof
  show "is_valid b = False \<longleftrightarrow> repeated_value b" by (simp add: is_valid_iff)
  show "(\<forall>k\<in>set iter_cells. value' (b k) = None) \<longrightarrow> is_valid b"
  proof
    assume "\<forall>k\<in>set iter_cells. value' (b k) = None"
    then have "\<not> repeated_value b" by (simp add: repeated_value_def)
    then show "is_valid b" by (simp add: is_valid_iff)
  qed
qed

theorem is_valid_false_iff_repeated_witness:
  "is_valid (set_cell (set_cell new_board 0 0 1) 1 0 1) = False \<and>
   repeated_value (set_cell (set_cell new_board 0 0 1) 1 0 1) \<and>
   is_valid new_board \<and> \<not> repeated_value new_board"
  using is_valid_false_iff_repeated[of "set_cell (set_cell new_board 0 0 1) 1 0 1"]
    is_valid_false_iff_repeated[of new_board] repeated_two_ones not_repeated_new_board
  by simp

lemma valid_example_solution: "is_valid example_solution"
  by (simp add: is_valid_def range9 get_row_def get_column_def get_chunk_def example_solution_def
      Cell_def List.map_filter_simps upt_rec)

text \<open>
  Claim C5. On a grid that is not valid \<open>is_solved\<close> raises the \<open>BoardException\<close>
  ``The board is not valid.''; on a valid grid it returns whether every one of the 81
  cells has an assigned value.
\<close>

theorem is_solved_spec:
  "is_solved b =
     (if is_valid b then Inr (\<forall>k\<in>set iter_cells. value' (b k) \<noteq> None)
      else Inl (BoardException ''The board is not valid.''))"
  by (simp add: is_solved_def list_all_iff)

theorem is_solved_spec_witness:
  "is_solved (set_cell (set_cell new_board 0 0 1) 1 0 1) = Inl (BoardException ''The board is not valid.'') \<and>
   is_solved new_board = Inr False \<and>
   is_solved example_solution = Inr True"
proof -
  have 1: "\<not> is_valid (set_cell (set_cell new_board 0 0 1) 1 0 1)"
    using repeated_two_ones by (simp add: is_valid_iff)
  have 2: "is_valid new_board" using not_repeated_new_board by (simp add: is_valid_iff)
  have 3: "(0, 0) \<in> set iter_cells" by (simp add: in_iter_cells)
  have 4: "\<forall>k\<in>set iter_cells. value' (example_solution k) \<noteq> None"
    by (simp add: example_solution_def Cell_def split_beta)
  show ?thesis
    using is_solved_spec[of "set_cell (set_cell new_board 0 0 1) 1 0 1"] is_solved_spec[of new_board]
      is_solved_spec[of example_solution] 1 2 3 4 valid_example_solution
    by (auto simp: value_new_board)
qed

section \<open>The backtracking solver\<close>

lemma shuffle_loop_mset:
  "\<forall>i\<in>set js. i < length x \<Longrightarrow> mset (fst (shuffle_loop js x r)) = mset x"
proof (induction js arbitrary: x r)
  case Nil
  then show ?case by simp
next
  case (Cons i js)
  let ?j = "shd r mod (i + 1)"
  let ?x = "x[i := x ! ?j, ?j := x ! i]"
  from Cons.prems have i: "i < length x" and js: "\<forall>i\<in>set js. i < length ?x" by simp_all
  have "?j < Suc i" by simp
  with i have j: "?j < length x" by linarith
  have "mset ?x = mset x" using j i by (rule mset_swap)
  with Cons.IH[OF js, of "stl r"] show ?case by (simp add: randbelow_def)
qed

lemma shuffle_mset: "mset (fst (shuffle x r)) = mset x"
  unfolding shuffle_def by (rule shuffle_loop_mset) simp

lemma shuffle_set: "set (fst (shuffle x r)) = set x"
  using shuffle_mset[of x r] by (rule mset_eq_setD)

lemma unset_set:
  "value' (b k) = None \<Longrightarrow>
   (b(k := (b k)\<lparr>value' := Some v\<rparr>))(k := ((b(k := (b k)\<lparr>value' := Some v\<rparr>)) k)\<lparr>value' := None\<rparr>) = b"
  by (cases "b k") (auto simp: fun_eq_iff)

lemma find_unsolved_Some:
  "find (\<lambda>k. value' (b k) = None) iter_cells = Some k \<Longrightarrow> k \<in> set iter_cells \<and> value' (b k) = None"
  by (auto simp: find_Some_iff)

lemma find_unsolved_None:
  "find (\<lambda>k. value' (b k) = None) iter_cells = None \<longleftrightarrow> (\<forall>k\<in>set iter_cells. value' (b k) \<noteq> None)"
  by (auto simp: find_None_iff)

lemma try_nums_False:
  assumes IH: "\<And>b r b' r'. solve_sudoku_fuel n b r = Some (False, b', r') \<Longrightarrow> b' = b"
  shows "try_nums n x y nums b r = Some (False, b', r') \<Longrightarrow> value' (b (x, y)) = None \<Longrightarrow> b' = b"
proof (induction nums arbitrary: r)
  case Nil
  then show ?case by simp
next
  case (Cons num nums)
  let ?bs = "b((x, y) := (b (x, y))\<lparr>value' := Some num\<rparr>)"
  show ?case
  proof (cases "would_be_valid b x y num")
    case False
    with Cons.prems have "try_nums n x y nums b r = Some (False, b', r')" by simp
    then show ?thesis using Cons.prems(2) by (rule Cons.IH)
  next
    case True
    show ?thesis
    proof (cases "solve_sudoku_fuel n ?bs r")
      case None
      with True Cons.prems(1) show ?thesis by simp
    next
      case (Some res)
      obtain ok b2 r2 where res: "res = (ok, b2, r2)" by (cases res) auto
      show ?thesis
      proof (cases ok)
        case True
        with \<open>would_be_valid b x y num\<close> Some res Cons.prems(1) show ?thesis by simp
      next
        case False
        with Some res have "b2 = ?bs" using IH by simp
        then have "b2((x, y) := (b2 (x, y))\<lparr>value' := None\<rparr>) = b"
          using unset_set[of b "(x, y)" num] Cons.prems(2) by simp
        with \<open>would_be_valid b x y num\<close> Some res False Cons.prems(1)
        have "try_nums n x y nums b r2 = Some (False, b', r')" by simp
        then show ?thesis using Cons.prems(2) by (rule Cons.IH)
      qed
    qed
  qed
qed

lemma solve_sudoku_fuel_False:
  "solve_sudoku_fuel n b r = Some (False, b', r') \<Longrightarrow> b' = b"
proof (induction n arbitrary: b r b' r')
  case 0
  then show ?case by simp
next
  case (Suc n)
  show ?case
  proof (cases "find (\<lambda>k. value' (b k) = None) iter_cells")
    case None
    with Suc.prems show ?thesis by simp
  next
    case (Some k)
    obtain x y where k: "k = (x, y)" by (cases k) auto
    from Some k have unsolved: "value' (b (x, y)) = None" using find_unsolved_Some by blast
    obtain nums r1 where sh: "shuffle [1, 2, 3, 4, 5, 6, 7, 8, 9] r = (nums, r1)"
      by (cases "shuffle [1, 2, 3, 4, 5, 6, 7, 8, 9] r") auto
    from Suc.prems Some k sh have "try_nums n x y nums b r1 = Some (False, b', r')" by simp
    with unsolved show ?thesis using try_nums_False[of n x y nums b r1 b' r'] Suc.IH by blast
  qed
qed

lemma unsolved_count_set:
  assumes "k \<in> set iter_cells" and "value' (b k) = None"
  shows "get_unsolved_count (b(k := (b k)\<lparr>value' := Some v\<rparr>)) < get_unsolved_count b"
proof -
  let ?bs = "b(k := (b k)\<lparr>value' := Some v\<rparr>)"
  let ?P = "\<lambda>k. value' (b k) = None" and ?Q = "\<lambda>k. value' (?bs k) = None"
  have "filter ?Q iter_cells = filter ?Q (filter ?P iter_cells)"
    by (auto intro: filter_cong)
  moreover have "k \<in> set (filter ?P iter_cells)" "\<not> ?Q k" using assms by simp_all
  then have "length (filter ?Q (filter ?P iter_cells)) < length (filter ?P iter_cells)"
    by (rule length_filter_less)
  ultimately show ?thesis by (simp add: get_unsolved_count_def get_unsolved_cells_def)
qed

lemma try_nums_total:
  assumes IH: "\<And>b r. get_unsolved_count b < n \<Longrightarrow> \<exists>res. solve_sudoku_fuel n b r = Some res"
    and xy: "(x, y) \<in> set iter_cells" and unsolved: "value' (b (x, y)) = None"
    and count: "get_unsolved_count b \<le> n"
  shows "\<exists>res. try_nums n x y nums b r = Some res"
proof (induction nums arbitrary: r)
  case Nil
  then show ?case by (simp del: split_paired_Ex)
next
  case (Cons num nums)
  let ?bs = "b((x, y) := (b (x, y))\<lparr>value' := Some num\<rparr>)"
  show ?case
  proof (cases "would_be_valid b x y num")
    case False
    with Cons.IH[of r] show ?thesis by simp
  next
    case True
    have "get_unsolved_count ?bs < n"
      using unsolved_count_set[of "(x, y)" b num] xy unsolved count by simp
    then obtain res where res: "solve_sudoku_fuel n ?bs r = Some res" using IH by blast
    obtain ok b2 r2 where r: "res = (ok, b2, r2)" by (cases res) auto
    show ?thesis
    proof (cases ok)
      case True
      with \<open>would_be_valid b x y num\<close> res r show ?thesis by (simp del: split_paired_Ex)
    next
      case False
      with res r have "b2 = ?bs" using solve_sudoku_fuel_False by simp
      then have "b2((x, y) := (b2 (x, y))\<lparr>value' := None\<rparr>) = b"
        using unset_set[of b "(x, y)" num] unsolved by simp
      with \<open>would_be_valid b x y num\<close> res r False Cons.IH[of r2] show ?thesis by simp
    qed
  qed
qed

lemma solve_sudoku_fuel_total:
  "get_unsolved_count b < n \<Longrightarrow> \<exists>res. solve_sudoku_fuel n b r = Some res"
proof (induction n arbitrary: b r)
  case 0
  then show ?case by simp
next
  case (Suc n)
  show ?case
  proof (cases "find (\<lambda>k. value' (b k) = None) iter_cells")
    case None
    then show ?thesis by (simp del: split_paired_Ex)
  next
    case (Some k)
    obtain x y where k: "k = (x, y)" by (cases k) auto
    from Some k have xy: "(x, y) \<in> set iter_cells" and unsolved: "value' (b (x, y)) = None"
      using find_unsolved_Some by blast+
    obtain nums r1 where sh: "shuffle [1, 2, 3, 4, 5, 6, 7, 8, 9] r = (nums, r1)"
      by (cases "shuffle [1, 2, 3, 4, 5, 6, 7, 8, 9] r") auto
    have "get_unsolved_count b \<le> n" using Suc.prems by simp
    then have "\<exists>res. try_nums n x y nums b r1 = Some res"
      using try_nums_total[of n x y b nums r1] Suc.IH xy unsolved by blast
    with Some k sh show ?thesis by simp
  qed
qed

lemma get_unsolved_count_le: "get_unsolved_count b \<le> 81"
proof -
  have "length iter_cells = 81" by (simp add: iter_cells_index)
  then show ?thesis
    using length_filter_le[of "\<lambda>k. value' (b k) = None" iter_cells]
    by (simp add: get_unsolved_count_def get_unsolved_cells_def)
qed

lemma repeated_value_cong:
  "(\<And>k. k \<in> set iter_cells \<Longrightarrow> value' (b k) = value' (b' k)) \<Longrightarrow>
   repeated_value b = repeated_value b'"
  unfolding repeated_value_def by simp

lemma would_be_valid_iff:
  "would_be_valid b x y v = is_valid (b((x, y) := (b (x, y))\<lparr>value' := Some v\<rparr>))"
  unfolding would_be_valid_def is_valid_iff
  by (rule arg_cong[of _ _ Not], rule repeated_value_cong) (simp add: set_cell_def clone_def Cell_def)

lemma values_in_range_set:
  "values_in_range b \<Longrightarrow> v \<in> {1..9} \<Longrightarrow> values_in_range (b(k := (b k)\<lparr>value' := Some v\<rparr>))"
  by (simp add: values_in_range_def)

lemma try_nums_True:
  assumes IH: "\<And>b r b' r'. solve_sudoku_fuel n b r = Some (True, b', r') \<Longrightarrow> is_valid b \<Longrightarrow>
      values_in_range b \<Longrightarrow>
      is_valid b' \<and> values_in_range b' \<and> (\<forall>k\<in>set iter_cells. value' (b' k) \<noteq> None)"
    and unsolved: "value' (b (x, y)) = None" and range: "values_in_range b"
  shows "try_nums n x y nums b r = Some (True, b', r') \<Longrightarrow> set nums \<subseteq> {1..9} \<Longrightarrow>
     is_valid b' \<and> values_in_range b' \<and> (\<forall>k\<in>set iter_cells. value' (b' k) \<noteq> None)"
proof (induction nums arbitrary: r)
  case Nil
  then show ?case by simp
next
  case (Cons num nums)
  let ?bs = "b((x, y) := (b (x, y))\<lparr>value' := Some num\<rparr>)"
  from Cons.prems(2) have num: "num \<in> {1..9}" and nums: "set nums \<subseteq> {1..9}" by simp_all
  show ?case
  proof (cases "would_be_valid b x y num")
    case False
    with Cons.prems(1) have "try_nums n x y nums b r = Some (True, b', r')" by simp
    then show ?thesis using nums by (rule Cons.IH)
  next
    case True
    then have valid: "is_valid ?bs" by (simp add: would_be_valid_iff)
    have rng: "values_in_range ?bs" using range num by (rule values_in_range_set)
    show ?thesis
    proof (cases "solve_sudoku_fuel n ?bs r")
      case None
      with True Cons.prems(1) show ?thesis by simp
    next
      case (Some res)
      obtain ok b2 r2 where res: "res = (ok, b2, r2)" by (cases res) auto
      show ?thesis
      proof (cases ok)
        case True
        with \<open>would_be_valid b x y num\<close> Some res Cons.prems(1)
        have "solve_sudoku_fuel n ?bs r = Some (True, b', r')" by simp
        then show ?thesis using valid rng by (rule IH)
      next
        case False
        with Some res have "b2 = ?bs" using solve_sudoku_fuel_False by simp
        then have "b2((x, y) := (b2 (x, y))\<lparr>value' := None\<rparr>) = b"
          using unset_set[of b "(x, y)" num] unsolved by simp
        with \<open>would_be_valid b x y num\<close> Some res False Cons.prems(1)
        have "try_nums n x y nums b r2 = Some (True, b', r')" by simp
        then show ?thesis using nums by (rule Cons.IH)
      qed
    qed
  qed
qed

lemma solve_sudoku_fuel_True:
  "solve_sudoku_fuel n b r = Some (True, b', r') \<Longrightarrow> is_valid b \<Longrightarrow> values_in_range b \<Longrightarrow>
   is_valid b' \<and> values_in_range b' \<and> (\<forall>k\<in>set iter_cells. value' (b' k) \<noteq> None)"
proof (induction n arbitrary: b r b' r')
  case 0
  then show ?case by simp
next
  case (Suc n)
  show ?case
  proof (cases "find (\<lambda>k. value' (b k) = None) iter_cells")
    case None
    with Suc.prems(1) have "b' = b" by simp
    with None Suc.prems(2,3) show ?thesis by (simp add: find_unsolved_None)
  next
    case (Some k)
    obtain x y where k: "k = (x, y)" by (cases k) auto
    from Some k have unsolved: "value' (b (x, y)) = None" using find_unsolved_Some by blast
    obtain nums r1 where sh: "shuffle [1, 2, 3, 4, 5, 6, 7, 8, 9] r = (nums, r1)"
      by (cases "shuffle [1, 2, 3, 4, 5, 6, 7, 8, 9] r") auto
    have "set nums = set [1, 2, 3, 4, 5, 6, 7, 8, 9::int]"
      using shuffle_set[of "[1, 2, 3, 4, 5, 6, 7, 8, 9]" r] sh by simp
    then have nums: "set nums \<subseteq> {1..9}" by simp
    from Suc.prems(1) Some k sh have t: "try_nums n x y nums b r1 = Some (True, b', r')" by simp
    show ?thesis
      using try_nums_True[of n b x y nums r1 b' r', OF _ unsolved Suc.prems(3) t nums] Suc.IH
      by blast
  qed
qed

lemma extends_valid:
  assumes "extends g b" and "is_valid g"
  shows "is_valid b"
proof -
  have "repeated_value g" if "repeated_value b"
  proof -
    from that obtain p q v where pq: "p \<in> set iter_cells" "q \<in> set iter_cells" "p \<noteq> q"
      "same_unit p q" "value' (b p) = Some v" "value' (b q) = Some v"
      unfolding repeated_value_def by blast
    with assms(1) have "value' (g p) = Some v" "value' (g q) = Some v"
      unfolding extends_def by force+
    with pq show ?thesis unfolding repeated_value_def by blast
  qed
  with assms(2) show ?thesis by (auto simp: is_valid_iff)
qed

lemma extends_set:
  "extends g b \<Longrightarrow> value' (g k) = Some v \<Longrightarrow> extends g (b(k := (b k)\<lparr>value' := Some v\<rparr>))"
  by (simp add: extends_def)

lemma try_nums_complete:
  assumes IH: "\<And>b r. get_unsolved_count b < n \<Longrightarrow> extends g b \<Longrightarrow>
      \<exists>b' r'. solve_sudoku_fuel n b r = Some (True, b', r')"
    and g: "is_valid g" and gv: "value' (g (x, y)) = Some v"
    and xy: "(x, y) \<in> set iter_cells" and unsolved: "value' (b (x, y)) = None"
    and count: "get_unsolved_count b \<le> n" and ext: "extends g b"
  shows "v \<in> set nums \<Longrightarrow> \<exists>b' r'. try_nums n x y nums b r = Some (True, b', r')"
proof (induction nums arbitrary: r)
  case Nil
  then show ?case by simp
next
  case (Cons num nums)
  let ?bs = "b((x, y) := (b (x, y))\<lparr>value' := Some num\<rparr>)"
  have good: "would_be_valid b x y v"
    unfolding would_be_valid_iff using extends_set[OF ext gv] g by (rule extends_valid)
  show ?case
  proof (cases "would_be_valid b x y num")
    case False
    with good have "num \<noteq> v" by blast
    with Cons.prems have "v \<in> set nums" by simp
    with Cons.IH[of r] False show ?thesis by simp
  next
    case True
    have c: "get_unsolved_count ?bs < n"
      using unsolved_count_set[of "(x, y)" b num] xy unsolved count by simp
    then obtain res where res: "solve_sudoku_fuel n ?bs r = Some res"
      using solve_sudoku_fuel_total by blast
    obtain ok b2 r2 where r: "res = (ok, b2, r2)" by (cases res) auto
    show ?thesis
    proof (cases ok)
      case True
      with \<open>would_be_valid b x y num\<close> res r show ?thesis by simp
    next
      case False
      have "num \<noteq> v"
      proof
        assume "num = v"
        then have "extends g ?bs" using extends_set[OF ext gv] by simp
        with IH[OF c, of r] res r False show False by simp
      qed
      with Cons.prems have v: "v \<in> set nums" by simp
      from False res r have "b2 = ?bs" using solve_sudoku_fuel_False by simp
      then have "b2((x, y) := (b2 (x, y))\<lparr>value' := None\<rparr>) = b"
        using unset_set[of b "(x, y)" num] unsolved by simp
      with \<open>would_be_valid b x y num\<close> res r False Cons.IH[OF v, of r2] show ?thesis by simp
    qed
  qed
qed

lemma solve_sudoku_fuel_complete:
  assumes "complete_grid g"
  shows "get_unsolved_count b < n \<Longrightarrow> extends g b \<Longrightarrow>
     \<exists>b' r'. solve_sudoku_fuel n b r = Some (True, b', r')"
proof (induction n arbitrary: b r)
  case 0
  then show ?case by simp
next
  case (Suc n)
  show ?case
  proof (cases "find (\<lambda>k. value' (b k) = None) iter_cells")
    case None
    then show ?thesis by simp
  next
    case (Some k)
    obtain x y where k: "k = (x, y)" by (cases k) auto
    from Some k have xy: "(x, y) \<in> set iter_cells" and unsolved: "value' (b (x, y)) = None"
      using find_unsolved_Some by blast+
    obtain nums r1 where sh: "shuffle [1, 2, 3, 4, 5, 6, 7, 8, 9] r = (nums, r1)"
      by (cases "shuffle [1, 2, 3, 4, 5, 6, 7, 8, 9] r") auto
    have nums: "set nums = set [1, 2, 3, 4, 5, 6, 7, 8, 9::int]"
      using shuffle_set[of "[1, 2, 3, 4, 5, 6, 7, 8, 9]" r] sh by simp
    from assms xy obtain v where v: "v \<in> {1..9}" "value' (g (x, y)) = Some v"
      unfolding complete_grid_def by blast
    have "{1..9::int} = set [1, 2, 3, 4, 5, 6, 7, 8, 9]" by auto
    with v(1) nums have vn: "v \<in> set nums" by simp
    have g: "is_valid g" using assms by (simp add: complete_grid_def)
    have count: "get_unsolved_count b \<le> n" using Suc.prems(1) by simp
    have "\<exists>b' r'. try_nums n x y nums b r1 = Some (True, b', r')"
      using try_nums_complete[of n g x y v b nums r1, OF _ g v(2) xy unsolved count Suc.prems(2) vn]
        Suc.IH by blast
    with Some k sh show ?thesis by simp
  qed
qed

lemma complete_example_solution: "complete_grid example_solution"
proof -
  have "\<exists>v\<in>{1..9}. value' (example_solution k) = Some v" for k
  proof -
    obtain x y where k: "k = (x, y)" by (cases k) auto
    have "int ((3 * (y mod 3) + y div 3 + x) mod 9) + 1 \<in> {1..9}" by simp
    then show ?thesis by (simp add: k example_solution_def Cell_def)
  qed
  with valid_example_solution show ?thesis by (simp add: complete_grid_def)
qed

lemma extends_new_board: "extends g new_board"
  by (simp add: extends_def value_new_board)

lemma values_in_range_new_board: "values_in_range new_board"
  by (simp add: values_in_range_def value_new_board)

lemma length_map_filter_all:
  "\<forall>k\<in>set ks. f k \<noteq> None \<Longrightarrow> length (List.map_filter f ks) = length ks"
  by (induction ks) (auto simp: List.map_filter_simps)

lemma unit_permutation:
  assumes sub: "set ks \<subseteq> set iter_cells" and len: "length ks = 9" and d: "distinct ks"
    and nr: "\<not> repeated_in b ks" and range: "values_in_range b"
    and full: "\<forall>k\<in>set iter_cells. value' (b k) \<noteq> None"
  shows "mset (List.map_filter (\<lambda>k. value' (b k)) ks) = mset [1..9]"
proof -
  let ?vs = "List.map_filter (\<lambda>k. value' (b k)) ks"
  have dv: "distinct ?vs" using distinct_map_filter[OF d] nr by simp
  have "length ?vs = 9" using length_map_filter_all[of ks "\<lambda>k. value' (b k)"] sub full len by auto
  with dv have card: "card (set ?vs) = 9" by (simp add: distinct_card)
  have ss: "set ?vs \<subseteq> {1..9}"
    using sub range unfolding set_map_filter values_in_range_def by blast
  have "set ?vs = {1..9}"
    by (rule card_subset_eq) (use ss card in simp_all)
  then have "set ?vs = set [1..9]" by simp
  with dv show ?thesis using set_eq_iff_mset_eq_distinct[of ?vs "[1..9]"] by simp
qed

lemma length_concat_map:
  "length (concat (map (\<lambda>y. map (f y) xs) ys)) = length ys * length xs"
  by (induction ys) simp_all

lemma length_unit_cells:
  "length (row_cells i) = 9" "length (column_cells i) = 9" "length (chunk_cells i) = 9"
  by (simp_all add: row_cells_def column_cells_def chunk_cells_def length_concat_map)

lemma unit_cells_subset:
  assumes "i < 9"
  shows "set (row_cells i) \<subseteq> set iter_cells" "set (column_cells i) \<subseteq> set iter_cells"
    "set (chunk_cells i) \<subseteq> set iter_cells"
  using assms chunk_cells_range[OF assms]
  by (auto simp: in_row_cells in_column_cells in_iter_cells)

lemma valid_full_permutations:
  assumes "is_valid b" and "values_in_range b" and "\<forall>k\<in>set iter_cells. value' (b k) \<noteq> None"
    and "i < 9"
  shows "mset (get_row b i) = mset [1..9]" "mset (get_column b i) = mset [1..9]"
    "mset (get_chunk b i) = mset [1..9]"
  using assms(1,4) unfolding is_valid_units get_row_cells get_column_cells get_chunk_cells
  by (auto intro!: unit_permutation assms(2,3) unit_cells_subset length_unit_cells
      distinct_row_cells distinct_column_cells distinct_chunk_cells)

lemma try_nums_fuel_mono:
  assumes IH: "\<And>b r res. solve_sudoku_fuel n b r = Some res \<Longrightarrow> solve_sudoku_fuel (n + d) b r = Some res"
  shows "try_nums n x y nums b r = Some res \<Longrightarrow> try_nums (n + d) x y nums b r = Some res"
proof (induction nums arbitrary: b r)
  case Nil
  then show ?case by simp
next
  case (Cons num nums)
  let ?bs = "b((x, y) := (b (x, y))\<lparr>value' := Some num\<rparr>)"
  show ?case
  proof (cases "would_be_valid b x y num")
    case False
    with Cons.prems Cons.IH[of b r] show ?thesis by simp
  next
    case True
    show ?thesis
    proof (cases "solve_sudoku_fuel n ?bs r")
      case None
      with True Cons.prems show ?thesis by simp
    next
      case (Some res2)
      obtain ok b2 r2 where res2: "res2 = (ok, b2, r2)" by (cases res2) auto
      from Some res2 have s1: "solve_sudoku_fuel n ?bs r = Some (ok, b2, r2)" by simp
      then have s2: "solve_sudoku_fuel (n + d) ?bs r = Some (ok, b2, r2)" by (rule IH)
      show ?thesis
      proof (cases ok)
        case True
        with \<open>would_be_valid b x y num\<close> s1 Cons.prems have "res = (True, b2, r2)" by simp
        with \<open>would_be_valid b x y num\<close> s2 True show ?thesis by simp
      next
        case False
        with \<open>would_be_valid b x y num\<close> s1 Cons.prems
        have "try_nums n x y nums (b2((x, y) := (b2 (x, y))\<lparr>value' := None\<rparr>)) r2 = Some res"
          by simp
        then have "try_nums (n + d) x y nums (b2((x, y) := (b2 (x, y))\<lparr>value' := None\<rparr>)) r2 = Some res"
          by (rule Cons.IH)
        with \<open>would_be_valid b x y num\<close> s2 False show ?thesis by simp
      qed
    qed
  qed
qed

lemma solve_sudoku_fuel_mono:
  "solve_sudoku_fuel n b r = Some res \<Longrightarrow> solve_sudoku_fuel (n + d) b r = Some res"
proof (induction n arbitrary: b r res)
  case 0
  then show ?case by simp
next
  case (Suc n)
  show ?case
  proof (cases "find (\<lambda>k. value' (b k) = None) iter_cells")
    case None
    with Suc.prems show ?thesis by simp
  next
    case (Some k)
    obtain x y where k: "k = (x, y)" by (cases k) auto
    obtain nums r1 where sh: "shuffle [1, 2, 3, 4, 5, 6, 7, 8, 9] r = (nums, r1)"
      by (cases "shuffle [1, 2, 3, 4, 5, 6, 7, 8, 9] r") auto
    from Suc.prems Some k sh have "try_nums n x y nums b r1 = Some res" by simp
    then have "try_nums (n + d) x y nums b r1 = Some res"
      using try_nums_fuel_mono[of n d x y nums b r1 res] Suc.IH by blast
    with Some k sh show ?thesis by simp
  qed
qed

lemma solve_sudoku_total: "\<exists>res. solve_sudoku b r = Some res"
  unfolding solve_sudoku_def by (rule solve_sudoku_fuel_total) simp

lemma solve_sudoku_any_fuel:
  assumes "get_unsolved_count b < n"
  shows "solve_sudoku_fuel n b r = solve_sudoku b r"
proof -
  obtain res where res: "solve_sudoku_fuel (Suc (get_unsolved_count b)) b r = Some res"
    using solve_sudoku_total[of b r] unfolding solve_sudoku_def by blast
  have "n = Suc (get_unsolved_count b) + (n - Suc (get_unsolved_count b))" using assms by simp
  then have "solve_sudoku_fuel n b r = Some res"
    using solve_sudoku_fuel_mono[OF res, of "n - Suc (get_unsolved_count b)"] by simp
  with res show ?thesis by (simp add: solve_sudoku_def)
qed

text \<open>
  Claim C2. Whatever the random generator draws, \<open>solve_sudoku\<close> on the grid with all
  81 cells unassigned returns, with \<open>True\<close>, and leaves a grid in which every cell is
  assigned and every row, column and block is a permutation of 1..9. (The call returns
  on every grid: lemma \<open>solve_sudoku_total\<close>; and its result does not depend on the bound
  on the depth: lemma \<open>solve_sudoku_any_fuel\<close>.)
\<close>

theorem solve_sudoku_empty_grid:
  "\<exists>b' r'. solve_sudoku new_board r = Some (True, b', r') \<and>
     (\<forall>x<9. \<forall>y<9. get_cell b' x y \<noteq> None) \<and>
     (\<forall>i<9. mset (get_row b' i) = mset [1..9] \<and> mset (get_column b' i) = mset [1..9] \<and>
             mset (get_chunk b' i) = mset [1..9])"
proof -
  obtain b' r' where s: "solve_sudoku_fuel (Suc (get_unsolved_count new_board)) new_board r = Some (True, b', r')"
    using solve_sudoku_fuel_complete[OF complete_example_solution _ extends_new_board] by blast
  have valid: "is_valid new_board" using not_repeated_new_board by (simp add: is_valid_iff)
  from solve_sudoku_fuel_True[OF s valid values_in_range_new_board]
  have b': "is_valid b'" "values_in_range b'" "\<forall>k\<in>set iter_cells. value' (b' k) \<noteq> None"
    by simp_all
  have "get_cell b' x y \<noteq> None" if "x < 9" "y < 9" for x y
    using b'(3) that in_iter_cells[of x y] by (auto simp: get_cell_def)
  then have "\<forall>x<9. \<forall>y<9. get_cell b' x y \<noteq> None" by blast
  with s valid_full_permutations[OF b'] show ?thesis by (simp add: solve_sudoku_def)
qed

theorem solve_sudoku_empty_grid_witness:
  "\<exists>b' r'. solve_sudoku new_board (sconst 0) = Some (True, b', r') \<and>
     (\<forall>x<9. \<forall>y<9. get_cell b' x y \<noteq> None) \<and>
     (\<forall>i<9. mset (get_row b' i) = mset [1..9] \<and> mset (get_column b' i) = mset [1..9] \<and>
             mset (get_chunk b' i) = mset [1..9])"
  by (rule solve_sudoku_empty_grid)

lemma extends_refl: "extends b b"
  by (simp add: extends_def)

lemma extends_unset:
  assumes "extends g (b(k := (b k)\<lparr>value' := Some v\<rparr>))" and "value' (b k) = None"
  shows "extends g b"
  unfolding extends_def
proof
  fix j assume j: "j \<in> set iter_cells"
  show "value' (b j) = None \<or> value' (b j) = value' (g j)"
  proof (cases "j = k")
    case True
    with assms(2) show ?thesis by simp
  next
    case False
    with assms(1) j show ?thesis unfolding extends_def by fastforce
  qed
qed

lemma try_nums_keeps:
  assumes IH: "\<And>b r b' r'. solve_sudoku_fuel n b r = Some (True, b', r') \<Longrightarrow> extends b' b"
    and unsolved: "value' (b (x, y)) = None"
  shows "try_nums n x y nums b r = Some (True, b', r') \<Longrightarrow> extends b' b"
proof (induction nums arbitrary: r)
  case Nil
  then show ?case by simp
next
  case (Cons num nums)
  let ?bs = "b((x, y) := (b (x, y))\<lparr>value' := Some num\<rparr>)"
  show ?case
  proof (cases "would_be_valid b x y num")
    case False
    with Cons.prems have "try_nums n x y nums b r = Some (True, b', r')" by simp
    then show ?thesis by (rule Cons.IH)
  next
    case True
    show ?thesis
    proof (cases "solve_sudoku_fuel n ?bs r")
      case None
      with True Cons.prems show ?thesis by simp
    next
      case (Some res)
      obtain ok b2 r2 where res: "res = (ok, b2, r2)" by (cases res) auto
      show ?thesis
      proof (cases ok)
        case True
        with \<open>would_be_valid b x y num\<close> Some res Cons.prems
        have "solve_sudoku_fuel n ?bs r = Some (True, b', r')" by simp
        then have "extends b' ?bs" by (rule IH)
        then show ?thesis using unsolved by (rule extends_unset)
      next
        case False
        with Some res have "b2 = ?bs" using solve_sudoku_fuel_False by simp
        then have "b2((x, y) := (b2 (x, y))\<lparr>value' := None\<rparr>) = b"
          using unset_set[of b "(x, y)" num] unsolved by simp
        with \<open>would_be_valid b x y num\<close> Some res False Cons.prems
        have "try_nums n x y nums b r2 = Some (True, b', r')" by simp
        then show ?thesis by (rule Cons.IH)
      qed
    qed
  qed
qed

lemma solve_sudoku_fuel_keeps:
  "solve_sudoku_fuel n b r = Some (True, b', r') \<Longrightarrow> extends b' b"
proof (induction n arbitrary: b r b' r')
  case 0
  then show ?case by simp
next
  case (Suc n)
  show ?case
  proof (cases "find (\<lambda>k. value' (b k) = None) iter_cells")
    case None
    with Suc.prems have "b' = b" by simp
    then show ?thesis by (simp add: extends_refl)
  next
    case (Some k)
    obtain x y where k: "k = (x, y)" by (cases k) auto
    from Some k have unsolved: "value' (b (x, y)) = None" using find_unsolved_Some by blast
    obtain nums r1 where sh: "shuffle [1, 2, 3, 4, 5, 6, 7, 8, 9] r = (nums, r1)"
      by (cases "shuffle [1, 2, 3, 4, 5, 6, 7, 8, 9] r") auto
    from Suc.prems Some k sh have t: "try_nums n x y nums b r1 = Some (True, b', r')" by simp
    show ?thesis
      using try_nums_keeps[of n b x y nums r1 b' r', OF _ unsolved t] Suc.IH by blast
  qed
qed

lemma value_dead_end_board:
  "value' (dead_end_board (x, y)) =
     (if x = 8 \<and> y = 6 then Some 9 else if x = 8 \<and> y = 5 then Some 8
      else if y = 0 \<and> x < 7 then Some (int x + 1) else None)"
proof -
  have "x < 7 \<longleftrightarrow> x = 0 \<or> x = 1 \<or> x = 2 \<or> x = 3 \<or> x = 4 \<or> x = 5 \<or> x = 6" by auto
  then show ?thesis
    by (auto simp: dead_end_board_def set_cell_def value_new_board)
qed

lemma dead_end_board_distinct:
  assumes "value' (dead_end_board (x, y)) = Some v" and "value' (dead_end_board (x', y')) = Some v"
  shows "(x, y) = (x', y')"
  using assms by (auto simp: value_dead_end_board split: if_splits)

lemma valid_dead_end_board: "is_valid dead_end_board"
proof -
  have "\<not> repeated_value dead_end_board"
  proof
    assume "repeated_value dead_end_board"
    then obtain p q v where pq: "p \<noteq> q" "value' (dead_end_board p) = Some v"
        "value' (dead_end_board q) = Some v"
      unfolding repeated_value_def by blast
    obtain x y x' y' where "p = (x, y)" "q = (x', y')" by (cases p, cases q) blast
    with pq dead_end_board_distinct[of x y v x' y'] show False by simp
  qed
  then show ?thesis by (simp add: is_valid_iff)
qed

lemma first_unsolved_dead_end_board:
  "find (\<lambda>k. value' (dead_end_board k) = None) iter_cells = Some (7, 0)"
proof -
  have len: "length iter_cells = 81" by (simp add: iter_cells_index)
  have nth: "iter_cells ! j = (j mod 9, j div 9)" if "j < 81" for j
    using that unfolding iter_cells_index by simp
  have "(7::nat) < length iter_cells" by (simp add: len)
  moreover have "value' (dead_end_board (iter_cells ! 7)) = None"
    by (simp add: nth value_dead_end_board)
  moreover have "(7, 0) = iter_cells ! 7" by (simp add: nth)
  moreover have "\<forall>j<7. \<not> value' (dead_end_board (iter_cells ! j)) = None"
    by (simp add: nth value_dead_end_board)
  ultimately show ?thesis unfolding find_Some_iff by blast
qed

lemma would_be_valid_dead_end_board: "would_be_valid dead_end_board 7 0 8"
proof -
  let ?bs = "dead_end_board((7, 0) := (dead_end_board (7, 0))\<lparr>value' := Some 8\<rparr>)"
  have "\<not> repeated_value ?bs"
  proof
    assume "repeated_value ?bs"
    then obtain p q v where pq: "p \<noteq> q" "same_unit p q" "value' (?bs p) = Some v"
        "value' (?bs q) = Some v"
      unfolding repeated_value_def by blast
    obtain x y x' y' where p: "p = (x, y)" and q: "q = (x', y')" by (cases p, cases q) blast
    have other: "same_unit (7, 0) k \<Longrightarrow> value' (dead_end_board k) \<noteq> Some 8" for k
      by (cases k) (auto simp: value_dead_end_board same_unit_def)
    show False
    proof (cases "p = (7, 0)")
      case True
      with pq have "value' (dead_end_board q) = Some 8" "same_unit (7, 0) q" by auto
      with other show False by blast
    next
      case False
      show False
      proof (cases "q = (7, 0)")
        case True
        with pq False have "value' (dead_end_board p) = Some 8" "same_unit (7, 0) p"
          by (auto simp: same_unit_def)
        with other show False by blast
      next
        case qn: False
        with False pq have "value' (dead_end_board p) = Some v" "value' (dead_end_board q) = Some v"
          by auto
        with pq(1) dead_end_board_distinct[of x y v x' y'] show False by (simp add: p q)
      qed
    qed
  qed
  then show ?thesis by (simp add: would_be_valid_iff is_valid_iff)
qed

lemma dead_end_board_no_completion:
  assumes ext: "extends b' dead_end_board"
    and full: "\<forall>k\<in>set iter_cells. value' (b' k) \<noteq> None"
    and range: "values_in_range b'"
  shows "\<not> is_valid b'"
proof -
  have p: "(8, 0) \<in> set iter_cells" by (simp add: in_iter_cells)
  with full obtain v where v: "value' (b' (8, 0)) = Some v" by auto
  with range p have "v \<in> {1..9}" unfolding values_in_range_def by blast
  then have "\<exists>x y. x < 9 \<and> y < 9 \<and> (x, y) \<noteq> (8, 0) \<and> same_unit (8, 0) (x, y) \<and>
      value' (dead_end_board (x, y)) = Some v"
  proof -
    consider "1 \<le> v \<and> v \<le> 7" | "v = 8" | "v = 9" using \<open>v \<in> {1..9}\<close> by force
    then show ?thesis
    proof cases
      case 1
      then have "nat (v - 1) < 9 \<and> (0::nat) < 9 \<and> (nat (v - 1), 0) \<noteq> (8, 0) \<and>
          same_unit (8, 0) (nat (v - 1), 0) \<and> value' (dead_end_board (nat (v - 1), 0)) = Some v"
        by (auto simp: same_unit_def value_dead_end_board)
      then show ?thesis by blast
    next
      case 2
      then have "(8::nat) < 9 \<and> (5::nat) < 9 \<and> (8::nat, 5::nat) \<noteq> (8, 0) \<and>
          same_unit (8, 0) (8, 5) \<and> value' (dead_end_board (8, 5)) = Some v"
        by (simp add: same_unit_def value_dead_end_board)
      then show ?thesis by blast
    next
      case 3
      then have "(8::nat) < 9 \<and> (6::nat) < 9 \<and> (8::nat, 6::nat) \<noteq> (8, 0) \<and>
          same_unit (8, 0) (8, 6) \<and> value' (dead_end_board (8, 6)) = Some v"
        by (simp add: same_unit_def value_dead_end_board)
      then show ?thesis by blast
    qed
  qed
  then obtain x y where q: "x < 9" "y < 9" "(x, y) \<noteq> (8, 0)" "same_unit (8, 0) (x, y)"
      "value' (dead_end_board (x, y)) = Some v" by blast
  have qi: "(x, y) \<in> set iter_cells" using q(1,2) by (simp add: in_iter_cells)
  with ext q(5) have "value' (b' (x, y)) = Some v" unfolding extends_def by force
  with v p qi q(3,4) have "repeated_value b'" unfolding repeated_value_def by metis
  then show ?thesis by (simp add: is_valid_iff)
qed

lemma values_in_range_dead_end_board: "values_in_range dead_end_board"
  unfolding values_in_range_def
proof (intro ballI allI impI)
  fix k v assume "value' (dead_end_board k) = Some v"
  then show "v \<in> {1..9}" by (cases k) (auto simp: value_dead_end_board split: if_splits)
qed

lemma solve_sudoku_dead_end_board:
  "\<exists>r'. solve_sudoku dead_end_board r = Some (False, dead_end_board, r')"
proof -
  obtain res where res: "solve_sudoku dead_end_board r = Some res"
    using solve_sudoku_total by blast
  obtain ok b' r' where r: "res = (ok, b', r')" by (cases res) auto
  have "\<not> ok"
  proof
    assume ok
    with res r have s: "solve_sudoku_fuel (Suc (get_unsolved_count dead_end_board)) dead_end_board r
        = Some (True, b', r')" by (simp add: solve_sudoku_def)
    from solve_sudoku_fuel_True[OF s valid_dead_end_board values_in_range_dead_end_board]
    have b': "is_valid b'" "values_in_range b'" "\<forall>k\<in>set iter_cells. value' (b' k) \<noteq> None"
      by simp_all
    from solve_sudoku_fuel_keeps[OF s] b'(3,2) have "\<not> is_valid b'"
      by (rule dead_end_board_no_completion)
    with b'(1) show False by simp
  qed
  with res r have f: "solve_sudoku dead_end_board r = Some (False, b', r')" by simp
  then have "b' = dead_end_board" unfolding solve_sudoku_def by (rule solve_sudoku_fuel_False)
  with f show ?thesis by blast
qed

text \<open>
  Claim C10. If the top-level \<open>solve_sudoku\<close> returns \<open>False\<close>, the board is the board
  of the call: every cell holds the value it held when the call was made. The witness is
  a valid grid on which the search does assign values (8 is accepted at the first
  unassigned cell), finds no completion and returns \<open>False\<close>.
\<close>

theorem solve_sudoku_failure_restores:
  assumes "solve_sudoku b r = Some (False, b', r')"
  shows "b' = b \<and> (\<forall>x<9. \<forall>y<9. get_cell b' x y = get_cell b x y)"
proof -
  from assms have "b' = b" unfolding solve_sudoku_def by (rule solve_sudoku_fuel_False)
  then show ?thesis by simp
qed

theorem solve_sudoku_failure_restores_witness:
  "is_valid dead_end_board \<and>
   find (\<lambda>k. value' (dead_end_board k) = None) iter_cells = Some (7, 0) \<and>
   would_be_valid dead_end_board 7 0 8 \<and>
   (\<exists>b' r'. solve_sudoku dead_end_board (sconst 0) = Some (False, b', r') \<and>
      b' = dead_end_board \<and> get_cell b' 7 0 = None \<and> get_cell b' 6 0 = Some 7)"
proof -
  obtain r' where s: "solve_sudoku dead_end_board (sconst 0) = Some (False, dead_end_board, r')"
    using solve_sudoku_dead_end_board by blast
  have "get_cell dead_end_board 7 0 = None" "get_cell dead_end_board 6 0 = Some 7"
    by (simp_all add: get_cell_def value_dead_end_board)
  with solve_sudoku_failure_restores[OF s] s valid_dead_end_board first_unsolved_dead_end_board
    would_be_valid_dead_end_board
  show ?thesis by blast
qed

section \<open>The propagation solver\<close>

lemma same_values_refl: "same_values b b"
  by (simp add: same_values_def)

lemma same_values_trans: "same_values a b \<Longrightarrow> same_values b c \<Longrightarrow> same_values a c"
  by (simp add: same_values_def)

lemma same_values_queries:
  assumes "same_values b b'"
  shows "get_row b' = get_row b" "get_column b' = get_column b" "get_chunk b' = get_chunk b"
    "get_unsolved_cells b' = get_unsolved_cells b"
proof -
  have "value' (b' k) = value' (b k)" for k using assms unfolding same_values_def by metis
  then show "get_row b' = get_row b" "get_column b' = get_column b" "get_chunk b' = get_chunk b"
    "get_unsolved_cells b' = get_unsolved_cells b"
    by (simp_all add: fun_eq_iff get_row_def get_column_def get_chunk_def get_unsolved_cells_def)
qed

lemma same_values_derived:
  assumes "same_values b b'"
  shows "is_valid b' = is_valid b" "candidates b' = candidates b" "stuck b' = stuck b"
    "get_unsolved_count b' = get_unsolved_count b"
proof -
  note q = same_values_queries[OF assms]
  show "candidates b' = candidates b" by (simp add: fun_eq_iff candidates_def q)
  then show "stuck b' = stuck b" by (simp add: stuck_def get_unsolved_count_def q)
  show "get_unsolved_count b' = get_unsolved_count b" by (simp add: get_unsolved_count_def q)
  have "is_valid_loop b' js = is_valid_loop b js" for js by (induction js) (simp_all add: q)
  then show "is_valid b' = is_valid b" by (simp add: is_valid_def)
qed

lemma get_possible_values_unsolved:
  assumes "value' (b (x, y)) = None"
  shows "same_values b (get_possible_values b x y)"
    and "possibles (get_possible_values b x y (x, y)) = candidates b x y"
  using assms by (simp_all add: get_possible_values_def same_values_def candidates_def Let_def)

lemma solve_pass_stuck:
  assumes "is_valid b"
    and "\<forall>(x, y)\<in>set ks. value' (b (x, y)) = None \<longrightarrow> 2 \<le> card (candidates b x y)"
  shows "\<exists>b'. solve_pass b ks = Inr b' \<and> same_values b b'"
  using assms
proof (induction ks arbitrary: b)
  case Nil
  then show ?case by (simp add: same_values_refl)
next
  case (Cons k ks)
  obtain x y where k: "k = (x, y)" by (cases k) auto
  show ?case
  proof (cases "value' (b (x, y)) = None")
    case True
    let ?b1 = "get_possible_values b x y"
    note sv = get_possible_values_unsolved(1)[of b x y, OF True]
    have card: "2 \<le> card (possibles (?b1 (x, y)))"
      using Cons.prems(2) True by (simp add: k get_possible_values_unsolved(2))
    have valid: "is_valid ?b1" using Cons.prems(1) by (simp add: same_values_derived(1)[OF sv])
    have rest: "\<forall>(x, y)\<in>set ks. value' (?b1 (x, y)) = None \<longrightarrow> 2 \<le> card (candidates ?b1 x y)"
      using Cons.prems(2) sv by (simp add: same_values_derived(2)[OF sv] same_values_def)
    obtain b' where b': "solve_pass ?b1 ks = Inr b'" "same_values ?b1 b'"
      using Cons.IH[OF valid rest] by blast
    have "solve_pass b (k # ks) = solve_pass ?b1 ks"
      using True card valid by (simp add: k Let_def)
    with b' same_values_trans[OF sv b'(2)] show ?thesis by simp
  next
    case False
    have rest: "\<forall>(x, y)\<in>set ks. value' (b (x, y)) = None \<longrightarrow> 2 \<le> card (candidates b x y)"
      using Cons.prems(2) by simp
    from False obtain v where "value' (b (x, y)) = Some v" by auto
    with Cons.prems(1) Cons.IH[OF Cons.prems(1) rest] show ?thesis by (simp add: k)
  qed
qed

lemma stuck_cells:
  "stuck b \<Longrightarrow> \<forall>(x, y)\<in>set iter_cells. value' (b (x, y)) = None \<longrightarrow> 2 \<le> card (candidates b x y)"
  by (auto simp: stuck_def get_unsolved_cells_def)

lemma solve_returns_not_stuck:
  assumes "solve b = Some res"
  shows "\<not> (stuck b \<and> is_valid b)"
  using assms
proof (rule solve.raw_induct[rotated, where P = "\<lambda>b res. \<not> (stuck b \<and> is_valid b)"])
  fix solve' :: "board \<Rightarrow> (error + board) option" and b res
  assume IH: "\<And>x y. solve' x = Some y \<Longrightarrow> \<not> (stuck x \<and> is_valid x)"
    and eq: "(case solve_pass b iter_cells of
               Inl e \<Rightarrow> Some (Inl e)
             | Inr b' \<Rightarrow> if get_unsolved_count b' = 0 then Some (Inr b') else solve' b') = Some res"
  show "\<not> (stuck b \<and> is_valid b)"
  proof
    assume sv: "stuck b \<and> is_valid b"
    then have "stuck b" and "is_valid b" by simp_all
    from solve_pass_stuck[OF this(2) stuck_cells[OF this(1)]]
    obtain b' where b': "solve_pass b iter_cells = Inr b'" "same_values b b'" by blast
    have "get_unsolved_count b' \<noteq> 0"
      using sv by (simp add: same_values_derived(4)[OF b'(2)] stuck_def)
    with eq b'(1) have "solve' b' = Some res" by simp
    then have "\<not> (stuck b' \<and> is_valid b')" by (rule IH)
    with sv show False by (simp add: same_values_derived[OF b'(2)])
  qed
qed

lemma solve_stuck_valid:
  assumes "stuck b" and "is_valid b"
  shows "solve b = None"
proof (rule ccontr)
  assume "solve b \<noteq> None"
  then obtain res where "solve b = Some res" by blast
  then have "\<not> (stuck b \<and> is_valid b)" by (rule solve_returns_not_stuck)
  with assms show False by simp
qed

lemma iter_cells_first: "\<exists>rest. iter_cells = (0, 0) # rest"
  by (simp add: iter_cells_def upt_rec[of 0])

lemma solve_stuck_invalid:
  assumes "stuck b" and "\<not> is_valid b"
  shows "solve b = Some (Inl (BoardException ''Board is not valid!''))"
proof -
  obtain rest where rest: "iter_cells = (0, 0) # rest" using iter_cells_first by blast
  have "solve_pass b ((0, 0) # rest) = Inl (BoardException ''Board is not valid!'')"
  proof (cases "value' (b (0, 0)) = None")
    case True
    let ?b1 = "get_possible_values b 0 0"
    note sv = get_possible_values_unsolved(1)[of b 0 0, OF True]
    have "(0, 0) \<in> set iter_cells" by (simp add: rest)
    then have "2 \<le> card (possibles (?b1 (0, 0)))"
      using stuck_cells[OF assms(1)] True by (auto simp: get_possible_values_unsolved(2))
    moreover have "\<not> is_valid ?b1" using assms(2) by (simp add: same_values_derived(1)[OF sv])
    ultimately show ?thesis using True by (simp add: Let_def)
  next
    case False
    then obtain v where "value' (b (0, 0)) = Some v" by auto
    with assms(2) show ?thesis by simp
  qed
  then show ?thesis by (subst solve.simps) (simp add: rest)
qed

lemma map_filter_None: "List.map_filter (\<lambda>x. None) xs = []"
  by (induction xs) (simp_all add: List.map_filter_simps)

lemma empty_rows:
  assumes "\<forall>k. value' (b k) = None"
  shows "get_row b i = []" "get_column b i = []" "get_chunk b i = []"
  using assms by (simp_all add: get_row_def get_column_def get_chunk_def Let_def map_filter_None)

lemma stuck_new_board: "stuck new_board"
proof -
  have "candidates new_board x y = {1..9}" for x y
    by (simp add: candidates_def empty_rows value_new_board)
  moreover have "get_unsolved_cells new_board = iter_cells"
    by (simp add: get_unsolved_cells_def value_new_board)
  moreover have "length iter_cells = 81" by (simp add: iter_cells_index)
  ultimately show ?thesis by (simp add: stuck_def get_unsolved_count_def)
qed

text \<open>
  Claim C1. On a grid on which deduction is stuck, \<open>Board.solve\<close> does not fail for want
  of progress: when the grid is valid the call never returns (every pass leaves all the
  values as they were, and the loop has no other exit), and when the grid is not valid
  the call raises ``Board is not valid!'' at the first cell. The grid with all cells
  unassigned is stuck and valid, so \<open>solve\<close> runs forever on it.
\<close>

theorem solve_stuck:
  assumes "stuck b"
  shows "solve b = (if is_valid b then None else Some (Inl (BoardException ''Board is not valid!'')))"
  using assms solve_stuck_valid solve_stuck_invalid by simp

theorem solve_stuck_witness:
  "stuck new_board \<and> is_valid new_board \<and> solve new_board = None"
proof -
  have "is_valid new_board" using not_repeated_new_board by (simp add: is_valid_iff)
  with solve_stuck[OF stuck_new_board] stuck_new_board show ?thesis by simp
qed


end
